theory Spec2Isabelle
  imports Complex_Main "HOL-Library.Sublist"
begin

section \<open>JSON values and Python dictionaries\<close>

text \<open>
  The scraper works on the value that \<^verbatim>\<open>response.json()\<close> returns: Python's image of a
  JSON document. Objects are dictionaries; they are association lists here, read with
  \<^const>\<open>map_of\<close> (the first binding of a key is the dictionary's binding). Python
  floats are represented by reals; no statement below depends on a float.
\<close>

datatype json =
    JNull
  | JBool bool
  | JInt int
  | JFloat real
  | JStr string
  | JList "json list"
  | JObj "(string \<times> json) list"

text \<open>The exceptions that the modelled code can raise.\<close>

datatype py_error = KeyError | TypeError | AttributeError | ValueError

text \<open>Python's truth value of an object, as \<^verbatim>\<open>if x:\<close> tests it.\<close>

fun truthy :: "json \<Rightarrow> bool" where
  "truthy JNull = False"
| "truthy (JBool b) = b"
| "truthy (JInt n) = (n \<noteq> 0)"
| "truthy (JFloat r) = (r \<noteq> 0)"
| "truthy (JStr s) = (s \<noteq> [])"
| "truthy (JList xs) = (xs \<noteq> [])"
| "truthy (JObj kvs) = (kvs \<noteq> [])"

text \<open>\<^verbatim>\<open>isinstance(x, dict)\<close>.\<close>

fun is_dict :: "json \<Rightarrow> bool" where
  "is_dict (JObj kvs) = True"
| "is_dict _ = False"

text \<open>\<^verbatim>\<open>d.get(k, dflt)\<close> and \<^verbatim>\<open>d[k] = v\<close>; a new key goes to the end, as in a Python
  dictionary, and an existing key keeps its place.\<close>

definition dict_get :: "('k \<times> 'v) list \<Rightarrow> 'k \<Rightarrow> 'v \<Rightarrow> 'v" where
  "dict_get d k dflt = (case map_of d k of None \<Rightarrow> dflt | Some v \<Rightarrow> v)"

fun dict_set :: "('k \<times> 'v) list \<Rightarrow> 'k \<Rightarrow> 'v \<Rightarrow> ('k \<times> 'v) list" where
  "dict_set [] k v = [(k, v)]"
| "dict_set ((k', v') # d) k v = (if k' = k then (k, v) # d else (k', v') # dict_set d k v)"

section \<open>Tree builder (scraper.py)\<close>

text \<open>
  A built comment is the dictionary with the keys \<^verbatim>\<open>id\<close>, \<^verbatim>\<open>author\<close>, \<^verbatim>\<open>timestamp\<close>,
  \<^verbatim>\<open>score\<close>, \<^verbatim>\<open>text\<close> and \<^verbatim>\<open>replies\<close>. The scalar fields hold whatever
  \<^verbatim>\<open>comment_data.get\<close> returned, so they are JSON values; \<^verbatim>\<open>replies\<close> is a list of built
  comments.
\<close>

datatype comment =
  Comment (c_id: json) (c_author: json) (c_timestamp: json) (c_score: json)
          (c_text: json) (c_replies: "comment list")

definition set_author :: "json \<Rightarrow> comment \<Rightarrow> comment" where
  "set_author v c = Comment (c_id c) v (c_timestamp c) (c_score c) (c_text c) (c_replies c)"

definition set_replies :: "comment list \<Rightarrow> comment \<Rightarrow> comment" where
  "set_replies rs c = Comment (c_id c) (c_author c) (c_timestamp c) (c_score c) (c_text c) rs"

text \<open>
  How an f-string renders a value: a \<^verbatim>\<open>str\<close> is inserted as it is; for any other value
  Python's \<^verbatim>\<open>str()\<close> decides, which is a parameter \<open>fmt\<close> of the model.
\<close>

definition py_str :: "(json \<Rightarrow> string) \<Rightarrow> json \<Rightarrow> string" where
  "py_str fmt v = (case v of JStr s \<Rightarrow> s | _ \<Rightarrow> fmt v)"

text \<open>Lines 71--82 of \<^verbatim>\<open>parse_comment\<close>: the comment object and the flair.\<close>

definition new_comment :: "(json \<Rightarrow> string) \<Rightarrow> (string \<times> json) list \<Rightarrow> comment" where
  "new_comment fmt comment_data =
     (let comment = Comment (dict_get comment_data ''id'' (JStr ''''))
                            (dict_get comment_data ''author'' (JStr ''[deleted]''))
                            (dict_get comment_data ''created_utc'' (JInt 0))
                            (dict_get comment_data ''score'' (JInt 0))
                            (dict_get comment_data ''body'' (JStr ''''))
                            [];
          flair = dict_get comment_data ''author_flair_text'' JNull
      in if truthy flair
         then set_author (JStr (py_str fmt (c_author comment) @ '' ('' @ py_str fmt flair @ '')'')) comment
         else comment)"

text \<open>
  Lines 85--87: the guards around the recursion and the lookup of the child entries.
  \<open>Inr None\<close>: the guards fail and nothing is parsed; \<open>Inr (Some v)\<close>: \<open>v\<close> is the value of
  \<^verbatim>\<open>reply_children\<close>; \<^verbatim>\<open>.get\<close> on a \<^verbatim>\<open>data\<close> that is no dictionary raises
  \<^verbatim>\<open>AttributeError\<close>.
\<close>

definition reply_children_of :: "(string \<times> json) list \<Rightarrow> py_error + json option" where
  "reply_children_of comment_data =
     (case map_of comment_data ''replies'' of
        None \<Rightarrow> Inr None
      | Some r \<Rightarrow>
          if \<not> truthy r then Inr None
          else (case r of
                  JObj rd \<Rightarrow>
                    (case dict_get rd ''data'' (JObj []) of
                       JObj dd \<Rightarrow> Inr (Some (dict_get dd ''children'' (JList [])))
                     | _ \<Rightarrow> Inl AttributeError)
                | _ \<Rightarrow> Inr None))"

text \<open>
  \<^verbatim>\<open>parse_comment\<close>, with the loop of lines 88--91 as \<open>parse_replies\<close> (its last argument
  is \<^verbatim>\<open>comment['replies']\<close> so far). Subscripting anything but a dictionary with
  \<^verbatim>\<open>'kind'\<close> raises \<^verbatim>\<open>TypeError\<close>, a missing key \<^verbatim>\<open>KeyError\<close>, and \<^verbatim>\<open>.get\<close> on a
  payload that is no dictionary \<^verbatim>\<open>AttributeError\<close>. When \<^verbatim>\<open>reply_children\<close> is a
  dictionary or a string, the loop runs over its keys or characters: each is a
  \<^verbatim>\<open>str\<close>, on which \<^verbatim>\<open>parse_comment\<close> raises \<^verbatim>\<open>TypeError\<close> at once, so only an empty one
  passes (lemma \<open>parse_replies_strings\<close> below shows that the loop over strings gives
  just that); any other value cannot be iterated, which is a \<^verbatim>\<open>TypeError\<close> too.
\<close>

function parse_comment :: "(json \<Rightarrow> string) \<Rightarrow> json \<Rightarrow> py_error + comment option"
  and parse_replies :: "(json \<Rightarrow> string) \<Rightarrow> json list \<Rightarrow> comment list \<Rightarrow> py_error + comment list"
where
  "parse_comment fmt comment_obj =
     (case comment_obj of
        JObj ob \<Rightarrow>
          (case map_of ob ''kind'' of
             None \<Rightarrow> Inl KeyError
           | Some kind \<Rightarrow>
               if kind \<noteq> JStr ''t1'' then Inr None
               else (case map_of ob ''data'' of
                       None \<Rightarrow> Inl KeyError
                     | Some (JObj comment_data) \<Rightarrow>
                         (let comment = new_comment fmt comment_data
                          in case reply_children_of comment_data of
                               Inl e \<Rightarrow> Inl e
                             | Inr None \<Rightarrow> Inr (Some comment)
                             | Inr (Some (JList reply_children)) \<Rightarrow>
                                 (case parse_replies fmt reply_children (c_replies comment) of
                                    Inl e \<Rightarrow> Inl e
                                  | Inr rs \<Rightarrow> Inr (Some (set_replies rs comment)))
                             | Inr (Some (JObj kvs)) \<Rightarrow>
                                 if kvs = [] then Inr (Some comment) else Inl TypeError
                             | Inr (Some (JStr s)) \<Rightarrow>
                                 if s = [] then Inr (Some comment) else Inl TypeError
                             | Inr (Some _) \<Rightarrow> Inl TypeError)
                     | Some _ \<Rightarrow> Inl AttributeError))
      | _ \<Rightarrow> Inl TypeError)"
| "parse_replies fmt [] acc = Inr acc"
| "parse_replies fmt (reply_obj # rest) acc =
     (case parse_comment fmt reply_obj of
        Inl e \<Rightarrow> Inl e
      | Inr None \<Rightarrow> parse_replies fmt rest acc
      | Inr (Some reply) \<Rightarrow> parse_replies fmt rest (acc @ [reply]))"
  by pat_completeness auto

text \<open>The child entries are a proper part of the entry they come from.\<close>

lemma size_map_of:
  "map_of kvs k = Some v \<Longrightarrow> size v \<le> size_list (size_prod (\<lambda>x. 0) size) kvs"
  by (induction kvs) (auto split: if_splits)

lemma size_dict_get:
  "size (dict_get kvs k d) \<le> max (size d) (size_list (size_prod (\<lambda>x. 0) size) kvs)"
  using size_map_of [of kvs k] by (auto simp: dict_get_def split: option.splits)

lemma size_reply_children:
  assumes "reply_children_of d = Inr (Some c)"
  shows "size c \<le> size_list (size_prod (\<lambda>x. 0) size) d"
proof -
  from assms obtain rd dd where
    r: "map_of d ''replies'' = Some (JObj rd)" and
    dd: "dict_get rd ''data'' (JObj []) = JObj dd" and
    c: "c = dict_get dd ''children'' (JList [])"
    by (auto simp: reply_children_of_def split: option.splits if_splits json.splits)
  have "size c \<le> size (JObj dd)"
    using size_dict_get [of dd "''children''" "JList []"] by (simp add: c)
  also have "\<dots> \<le> size (JObj rd)"
    using size_dict_get [of rd "''data''" "JObj []"] by (simp add: dd)
  also have "\<dots> \<le> size_list (size_prod (\<lambda>x. 0) size) d"
    using size_map_of [OF r] .
  finally show ?thesis .
qed

lemma size_reply_entries:
  assumes "map_of ob ''data'' = Some (JObj cd)"
    and "reply_children_of cd = Inr (Some (JList xs))"
  shows "size_list size xs < Suc (size_list (size_prod (\<lambda>x. 0) size) ob)"
  using size_map_of [OF assms(1)] size_reply_children [OF assms(2)] by simp

termination parse_comment
  apply (relation "measure (\<lambda>x. case x of Inl (fmt, j) \<Rightarrow> size j | Inr (fmt, js, acc) \<Rightarrow> size_list size js)")
  apply simp_all
  apply (rule size_reply_entries; assumption)
  done

declare parse_comment.simps [simp del]

text \<open>
  Lines 96--100 of \<^verbatim>\<open>scrape_reddit_post\<close>: the loop over the top-level entries that builds
  \<^verbatim>\<open>comments_list\<close>. An exception of \<^verbatim>\<open>parse_comment\<close> ends it.
\<close>

fun comments_loop :: "(json \<Rightarrow> string) \<Rightarrow> json list \<Rightarrow> comment list \<Rightarrow> py_error + comment list" where
  "comments_loop fmt [] acc = Inr acc"
| "comments_loop fmt (comment_obj # rest) acc =
     (case parse_comment fmt comment_obj of
        Inl e \<Rightarrow> Inl e
      | Inr None \<Rightarrow> comments_loop fmt rest acc
      | Inr (Some comment) \<Rightarrow> comments_loop fmt rest (acc @ [comment]))"

definition comments_list :: "(json \<Rightarrow> string) \<Rightarrow> json list \<Rightarrow> py_error + comment list" where
  "comments_list fmt comments_data_raw = comments_loop fmt comments_data_raw []"

text \<open>Lines 51--60: the post metadata, from the payload \<^verbatim>\<open>post_data_raw\<close> and the URL.\<close>

record post =
  title :: json
  author :: json
  subreddit :: json
  timestamp :: json
  score :: json
  url :: string
  num_comments :: json
  selftext :: json

definition post_data :: "string \<Rightarrow> json \<Rightarrow> py_error + post" where
  "post_data u post_data_raw =
     (case post_data_raw of
        JObj d \<Rightarrow>
          Inr \<lparr>title = dict_get d ''title'' (JStr ''Unknown''),
               author = dict_get d ''author'' (JStr ''Unknown''),
               subreddit = dict_get d ''subreddit'' (JStr ''Unknown''),
               timestamp = dict_get d ''created_utc'' (JInt 0),
               score = dict_get d ''score'' (JInt 0),
               url = u,
               num_comments = dict_get d ''num_comments'' (JInt 0),
               selftext = dict_get d ''selftext'' (JStr '''')\<rparr>
      | _ \<Rightarrow> Inl AttributeError)"

section \<open>Tree statistics\<close>

text \<open>
  \<^verbatim>\<open>count_all\<close> (scraper.py): \<^verbatim>\<open>total = len(comments)\<close>, then one recursive call per
  comment on \<^verbatim>\<open>comment.get('replies', [])\<close>. A built comment always has the key
  \<^verbatim>\<open>replies\<close>, so the lookup is the comment's child sequence.
\<close>

fun count_all :: "comment list \<Rightarrow> int"
  and count_all_loop :: "comment list \<Rightarrow> int \<Rightarrow> int"
where
  "count_all comments = count_all_loop comments (int (length comments))"
| "count_all_loop [] tot = tot"
| "count_all_loop (Comment i a t s b rs # cs) tot = count_all_loop cs (tot + count_all rs)"

text \<open>
  \<^verbatim>\<open>count_comments_recursive\<close> (server.py) mutates the dictionary \<^verbatim>\<open>stats\<close> it is
  given; the model passes the statistics through and returns them with the total.
  \<open>visit\<close> is lines 91--92, \<open>count_comments_loop\<close> the \<^verbatim>\<open>for\<close> loop with the running
  \<^verbatim>\<open>total\<close>.
\<close>

record stats =
  max_depth :: int
  by_depth :: "(int \<times> int) list"

definition visit :: "int \<Rightarrow> stats \<Rightarrow> stats" where
  "visit depth st =
     (let st1 = st\<lparr>max_depth := max (max_depth st) depth\<rparr>
      in st1\<lparr>by_depth := dict_set (by_depth st1) depth (dict_get (by_depth st1) depth 0 + 1)\<rparr>)"

definition fresh_stats :: stats where
  "fresh_stats = \<lparr>max_depth = 0, by_depth = []\<rparr>"

fun count_comments_recursive :: "comment list \<Rightarrow> int \<Rightarrow> stats option \<Rightarrow> int \<times> stats"
  and count_comments_loop :: "comment list \<Rightarrow> int \<Rightarrow> stats \<Rightarrow> int \<Rightarrow> int \<times> stats"
where
  "count_comments_recursive comments depth stats =
     count_comments_loop comments depth
       (case stats of None \<Rightarrow> fresh_stats | Some st \<Rightarrow> st) 0"
| "count_comments_loop [] depth st tot = (tot, st)"
| "count_comments_loop (Comment i a t s b rs # cs) depth st tot =
     (let tot1 = tot + 1;
          st2 = visit depth st
      in if rs \<noteq> []
         then (case count_comments_recursive rs (depth + 1) (Some st2) of
                 (sub, st3) \<Rightarrow> count_comments_loop cs depth st3 (tot1 + sub))
         else count_comments_loop cs depth st2 tot1)"

section \<open>\<^verbatim>\<open>count_all\<close> on Python's object store\<close>

text \<open>
  To say what a call does to its argument, the argument has to be an object that can be
  changed. Here lists and dictionaries are objects in a store, named by their address
  (their index in the store); \<^verbatim>\<open>None\<close>, booleans, numbers and strings are immutable and
  are carried as values. The state of the program is the store and what has been
  printed so far (to either stream). Creating an object appends it to the store.
\<close>

type_synonym addr = nat

datatype scalar = SNone | SBool bool | SInt int | SFloat real | SStr string

datatype pyval = Imm scalar | Ref addr

datatype pyobj = ListObj "pyval list" | DictObj "(string \<times> pyval) list"

record pystate =
  store :: "pyobj list"
  printed :: "string list"

definition obj_at :: "pyobj list \<Rightarrow> addr \<Rightarrow> pyobj option" where
  "obj_at st a = (if a < length st then Some (st ! a) else None)"

definition alloc :: "pyobj \<Rightarrow> pystate \<Rightarrow> addr \<times> pystate" where
  "alloc ob s = (length (store s), s\<lparr>store := store s @ [ob]\<rparr>)"

text \<open>
  \<^verbatim>\<open>count_all\<close> (scraper.py, lines 103--107), statement by statement, on a state. The
  result is \<open>None\<close> when the fuel (one unit per call and per turn of the loop) runs out,
  or when an address names no object, which no Python store has; otherwise it is the
  returned total or the raised exception, with the state the call leaves.
  \<^item> \<^verbatim>\<open>total = len(comments)\<close>: a list has its number of items. A dictionary and a string
    have a length too, but the loop variable is then a key or a character, a \<^verbatim>\<open>str\<close>,
    which has no \<^verbatim>\<open>get\<close>: only an empty one passes, with total 0. Any other value has no
    length, a \<^verbatim>\<open>TypeError\<close>.
  \<^item> \<^verbatim>\<open>for comment in comments\<close>: \<open>count_all_loop_h\<close>, with the index \<open>i\<close> of the list
    iterator; each turn reads the list as it is in the store at that moment.
  \<^item> \<^verbatim>\<open>comment.get('replies', [])\<close>: only a dictionary has \<^verbatim>\<open>get\<close>
    (\<^verbatim>\<open>AttributeError\<close> otherwise); the default \<^verbatim>\<open>[]\<close> is a new list object, created at
    every evaluation; the lookup returns the stored value, a reference to the very
    list that the dictionary holds, or the default.
  \<^item> \<^verbatim>\<open>total += count_all(...)\<close>: the recursive call runs on the state so far and the loop
    goes on in the state the call leaves.
\<close>

fun count_all_h :: "nat \<Rightarrow> pyval \<Rightarrow> pystate \<Rightarrow> ((py_error + int) \<times> pystate) option"
  and count_all_loop_h ::
    "nat \<Rightarrow> addr \<Rightarrow> nat \<Rightarrow> int \<Rightarrow> pystate \<Rightarrow> ((py_error + int) \<times> pystate) option"
where
  "count_all_h 0 comments s = None"
| "count_all_h (Suc n) comments s =
     (case comments of
        Ref a \<Rightarrow>
          (case obj_at (store s) a of
             Some (ListObj items) \<Rightarrow> count_all_loop_h n a 0 (int (length items)) s
           | Some (DictObj kvs) \<Rightarrow>
               if kvs = [] then Some (Inr 0, s) else Some (Inl AttributeError, s)
           | None \<Rightarrow> None)
      | Imm (SStr str) \<Rightarrow>
          if str = [] then Some (Inr 0, s) else Some (Inl AttributeError, s)
      | Imm _ \<Rightarrow> Some (Inl TypeError, s))"
| "count_all_loop_h 0 a i tot s = None"
| "count_all_loop_h (Suc n) a i tot s =
     (case obj_at (store s) a of
        Some (ListObj items) \<Rightarrow>
          if i < length items then
            (case items ! i of
               Ref d \<Rightarrow>
                 (case obj_at (store s) d of
                    Some (DictObj kvs) \<Rightarrow>
                      (case alloc (ListObj []) s of
                         (dflt, s1) \<Rightarrow>
                           (case count_all_h n (dict_get kvs ''replies'' (Ref dflt)) s1 of
                              None \<Rightarrow> None
                            | Some (Inl e, s2) \<Rightarrow> Some (Inl e, s2)
                            | Some (Inr sub, s2) \<Rightarrow> count_all_loop_h n a (i + 1) (tot + sub) s2))
                  | Some (ListObj xs) \<Rightarrow> Some (Inl AttributeError, s)
                  | None \<Rightarrow> None)
             | Imm v \<Rightarrow> Some (Inl AttributeError, s))
          else Some (Inr tot, s)
      | _ \<Rightarrow> None)"

text \<open>
  How a store holds data. \<open>json_at st v j\<close>: the value \<open>v\<close> is, in the store \<open>st\<close>, the
  Python object of the JSON value \<open>j\<close>: a scalar is itself, a list is a list object
  whose items are the elements, and a dictionary is a dictionary object with the same
  keys in the same order whose values are the members. A built comment is the
  dictionary of lines 71--78, \<open>comment_json\<close>; a forest is the list of them.
\<close>

fun comment_json :: "comment \<Rightarrow> json" where
  "comment_json (Comment i a t s b rs) =
     JObj [(''id'', i), (''author'', a), (''timestamp'', t), (''score'', s), (''text'', b),
           (''replies'', JList (map comment_json rs))]"

function json_at :: "pyobj list \<Rightarrow> pyval \<Rightarrow> json \<Rightarrow> bool" where
  "json_at st v JNull = (v = Imm SNone)"
| "json_at st v (JBool b) = (v = Imm (SBool b))"
| "json_at st v (JInt n) = (v = Imm (SInt n))"
| "json_at st v (JFloat r) = (v = Imm (SFloat r))"
| "json_at st v (JStr str) = (v = Imm (SStr str))"
| "json_at st v (JList js) =
     (case v of
        Ref a \<Rightarrow> (case obj_at st a of
                    Some (ListObj vs) \<Rightarrow> list_all2 (json_at st) vs js
                  | _ \<Rightarrow> False)
      | _ \<Rightarrow> False)"
| "json_at st v (JObj kvs) =
     (case v of
        Ref a \<Rightarrow> (case obj_at st a of
                    Some (DictObj ds) \<Rightarrow>
                      map fst ds = map fst kvs \<and> list_all2 (json_at st) (map snd ds) (map snd kvs)
                  | _ \<Rightarrow> False)
      | _ \<Rightarrow> False)"
  by pat_completeness auto

lemma size_snd_entry:
  "(k, j) \<in> set kvs \<Longrightarrow> size j < Suc (size_list (size_prod (\<lambda>x. 0) size) kvs)"
  by (induction kvs) auto

termination json_at
  apply (relation "measure (\<lambda>(st, v, j). size j)")
  apply (auto simp: size_snd_entry less_Suc_eq_le size_list_estimation')
  done

text \<open>Fuel that is enough for a forest: one unit per call and per turn, the exit included.\<close>

fun fuel_for :: "comment list \<Rightarrow> nat"
  and loop_fuel :: "comment list \<Rightarrow> nat"
where
  "fuel_for comments = Suc (loop_fuel comments)"
| "loop_fuel [] = Suc 0"
| "loop_fuel (Comment i a t s b rs # cs) = Suc (max (fuel_for rs) (loop_fuel cs))"

section \<open>Request validation (server.py)\<close>

text \<open>\<^verbatim>\<open>sub in s\<close> and \<^verbatim>\<open>s.replace(old, new)\<close> on strings.\<close>

fun str_contains :: "string \<Rightarrow> string \<Rightarrow> bool" where
  "str_contains sub [] = (sub = [])"
| "str_contains sub (c # cs) = (prefix sub (c # cs) \<or> str_contains sub cs)"

function str_replace :: "string \<Rightarrow> string \<Rightarrow> string \<Rightarrow> string" where
  "str_replace old new [] = (if old = [] then new else [])"
| "str_replace old new (c # cs) =
     (if old = [] then new @ c # str_replace old new cs
      else if prefix old (c # cs) then new @ str_replace old new (drop (length old) (c # cs))
      else c # str_replace old new cs)"
  by pat_completeness auto
termination
  by (relation "measure (\<lambda>(old, new, s). length s)") auto

text \<open>The first half of \<^verbatim>\<open>validate_reddit_url\<close>: the conversion to old.reddit.com.\<close>

definition normalize_url :: "string \<Rightarrow> string" where
  "normalize_url v =
     (if str_contains ''reddit.com'' v
      then (let v1 = str_replace ''www.reddit.com'' ''reddit.com'' v
            in if \<not> str_contains ''old.reddit.com'' v1
               then str_replace ''reddit.com'' ''old.reddit.com'' v1
               else v1)
      else v)"

text \<open>
  \<^verbatim>\<open>re.match(r'https?://old\.reddit\.com/r/\w+/comments/', v)\<close>, matched at the start of
  \<open>v\<close> by backtracking as \<^verbatim>\<open>re\<close> does: \<open>word_run_then w lit\<close> is \<^verbatim>\<open>\w+\<close> followed by the
  literal \<open>lit\<close>, \<open>host_path_match\<close> is the pattern from \<^verbatim>\<open>://\<close> on, and the optional
  \<^verbatim>\<open>s\<close> is tried first taken, then left out. Which characters \<^verbatim>\<open>\w\<close> accepts is
  Python's Unicode table, the parameter \<open>w\<close>.
\<close>

fun word_run_then :: "(char \<Rightarrow> bool) \<Rightarrow> string \<Rightarrow> string \<Rightarrow> bool" where
  "word_run_then w lit [] = False"
| "word_run_then w lit (c # cs) = (w c \<and> (prefix lit cs \<or> word_run_then w lit cs))"

definition host_path_match :: "(char \<Rightarrow> bool) \<Rightarrow> string \<Rightarrow> bool" where
  "host_path_match w s =
     (prefix ''://old.reddit.com/r/'' s
      \<and> word_run_then w ''/comments/'' (drop (length ''://old.reddit.com/r/'') s))"

definition re_match_reddit :: "(char \<Rightarrow> bool) \<Rightarrow> string \<Rightarrow> bool" where
  "re_match_reddit w v =
     (prefix ''http'' v
      \<and> (let s = drop (length ''http'') v
         in (prefix ''s'' s \<and> host_path_match w (drop 1 s)) \<or> host_path_match w s))"

definition validate_reddit_url :: "(char \<Rightarrow> bool) \<Rightarrow> string \<Rightarrow> py_error + string" where
  "validate_reddit_url w v =
     (let v' = normalize_url v
      in if \<not> re_match_reddit w v' then Inl ValueError else Inr v')"

text \<open>
  The endpoint \<^verbatim>\<open>POST /scrape\<close>. The framework builds the \<^verbatim>\<open>ScrapeRequest\<close> from the
  request body, which runs the field validator, before it calls \<^verbatim>\<open>scrape_reddit\<close>; a
  \<^verbatim>\<open>ValueError\<close> of the validator is answered with a validation error (status 422) and
  the endpoint function is not called. \<^verbatim>\<open>scrape_reddit\<close> starts the scraper, which
  fetches from the network, as a subprocess on \<^verbatim>\<open>request.url\<close>: \<open>run_scraper\<close> stands for
  the subprocess and the decoding of its output (\<open>None\<close>: it failed, timed out, or its
  output could not be decoded, all answered with status 500). The second component of
  the result lists the URLs the scraper was started on.
\<close>

record scrape_response =
  success :: bool
  response_url :: string
  response_post :: post
  response_comments :: "comment list"
  total_comments :: int
  top_level_comments :: int
  response_max_depth :: int
  comments_by_depth :: "(int \<times> int) list"

datatype http_response = Success scrape_response | ValidationError | InternalError

definition scrape_reddit ::
  "(string \<Rightarrow> (post \<times> comment list) option) \<Rightarrow> string \<Rightarrow> http_response \<times> string list" where
  "scrape_reddit run_scraper request_url =
     (case run_scraper request_url of
        None \<Rightarrow> (InternalError, [request_url])
      | Some (p, comments) \<Rightarrow>
          (case count_comments_recursive comments 0 (Some fresh_stats) of
             (tot, stats_info) \<Rightarrow>
               (Success \<lparr>success = True, response_url = request_url, response_post = p,
                          response_comments = comments, total_comments = tot,
                          top_level_comments = int (length comments),
                          response_max_depth = max_depth stats_info,
                          comments_by_depth = by_depth stats_info\<rparr>,
                [request_url])))"

definition post_scrape ::
  "(char \<Rightarrow> bool) \<Rightarrow> (string \<Rightarrow> (post \<times> comment list) option) \<Rightarrow> string
     \<Rightarrow> http_response \<times> string list" where
  "post_scrape w run_scraper body_url =
     (case validate_reddit_url w body_url of
        Inl e \<Rightarrow> (ValidationError, [])
      | Inr v \<Rightarrow> scrape_reddit run_scraper v)"

section \<open>Notions of the specification and of the proofs\<close>

text \<open>
  The invariant of the statistics: \<^verbatim>\<open>by_depth\<close> has each key once (it is a dictionary), and
  every recorded depth is at most \<^verbatim>\<open>max_depth\<close>.
\<close>

definition stats_inv :: "stats \<Rightarrow> bool" where
  "stats_inv st \<longleftrightarrow>
     distinct (map fst (by_depth st)) \<and> (\<forall>k \<in> fst ` set (by_depth st). k \<le> max_depth st)"

text \<open>
  The URL pattern as the specification words it: a scheme \<^verbatim>\<open>http\<close> or \<^verbatim>\<open>https\<close>, the
  host old.reddit.com, \<^verbatim>\<open>/r/\<close>, a non-empty community name of word characters,
  \<^verbatim>\<open>/comments/\<close>, and anything after it.
\<close>

definition matches_pattern :: "(char \<Rightarrow> bool) \<Rightarrow> string \<Rightarrow> bool" where
  "matches_pattern w v \<longleftrightarrow>
     (\<exists>scheme community rest.
        v = scheme @ ''://old.reddit.com/r/'' @ community @ ''/comments/'' @ rest
        \<and> (scheme = ''http'' \<or> scheme = ''https'')
        \<and> community \<noteq> [] \<and> (\<forall>c \<in> set community. w c))"

text \<open>The non-null results among a sequence of results, in their order.\<close>

definition non_null :: "'a option list \<Rightarrow> 'a list" where
  "non_null rs = [n. Some n \<leftarrow> rs]"

section \<open>Example inputs\<close>

text \<open>A rendering of non-strings and the ASCII part of \<^verbatim>\<open>\w\<close>, for the examples.\<close>

definition str_other :: "json \<Rightarrow> string" where
  "str_other v = ''?''"

definition word_ascii :: "char \<Rightarrow> bool" where
  "word_ascii c =
     (let n = (of_char c :: nat)
      in (48 \<le> n \<and> n \<le> 57) \<or> (65 \<le> n \<and> n \<le> 90) \<or> (97 \<le> n \<and> n \<le> 122) \<or> n = 95)"

text \<open>The listing of the specification's example, with a ``load more'' entry added.\<close>

definition more_entry :: json where
  "more_entry = JObj [(''kind'', JStr ''more''), (''data'', JNull)]"

definition reply_entry :: json where
  "reply_entry = JObj [(''kind'', JStr ''t1''),
     (''data'', JObj [(''id'', JStr ''b''), (''author'', JStr ''[deleted]''),
        (''author_flair_text'', JStr ''Mod''), (''score'', JInt 1), (''body'', JStr ''yo''),
        (''replies'', JBool False)])]"

definition top_entry :: json where
  "top_entry = JObj [(''kind'', JStr ''t1''),
     (''data'', JObj [(''id'', JStr ''a''), (''author'', JStr ''bob''), (''score'', JInt 5),
        (''body'', JStr ''hi''),
        (''replies'', JObj [(''data'', JObj [(''children'', JList [reply_entry, more_entry])])])])]"

definition leaf :: "string \<Rightarrow> comment" where
  "leaf i = Comment (JStr i) (JStr ''bob'') (JInt 0) (JInt 1) (JStr ''hi'') []"

definition ex_forest :: "comment list" where
  "ex_forest = [Comment (JStr ''a'') (JStr ''bob'') (JInt 0) (JInt 5) (JStr ''hi'') [leaf ''b''], leaf ''c'']"

text \<open>A store that holds \<open>ex_forest\<close> at address 0.\<close>

definition ex_store :: "pyobj list" where
  "ex_store =
     [ListObj [Ref 1, Ref 5],
      DictObj [(''id'', Imm (SStr ''a'')), (''author'', Imm (SStr ''bob'')), (''timestamp'', Imm (SInt 0)),
               (''score'', Imm (SInt 5)), (''text'', Imm (SStr ''hi'')), (''replies'', Ref 2)],
      ListObj [Ref 3],
      DictObj [(''id'', Imm (SStr ''b'')), (''author'', Imm (SStr ''bob'')), (''timestamp'', Imm (SInt 0)),
               (''score'', Imm (SInt 1)), (''text'', Imm (SStr ''hi'')), (''replies'', Ref 4)],
      ListObj [],
      DictObj [(''id'', Imm (SStr ''c'')), (''author'', Imm (SStr ''bob'')), (''timestamp'', Imm (SInt 0)),
               (''score'', Imm (SInt 1)), (''text'', Imm (SStr ''hi'')), (''replies'', Ref 6)],
      ListObj []]"

section \<open>Counting\<close>

lemma count_all_loop_shift: "count_all_loop cs tot = tot + count_all_loop cs 0"
proof (induction cs arbitrary: tot)
  case Nil
  show ?case by simp
next
  case (Cons c cs)
  obtain i a t s b rs where c: "c = Comment i a t s b rs" by (cases c)
  have "count_all_loop (c # cs) tot = tot + count_all rs + count_all_loop cs 0"
    using Cons.IH [of "tot + count_all rs"] by (simp add: c del: count_all.simps)
  moreover have "count_all_loop (c # cs) 0 = count_all rs + count_all_loop cs 0"
    using Cons.IH [of "count_all rs"] by (simp add: c del: count_all.simps)
  ultimately show ?case by simp
qed

lemma count_all_Nil: "count_all [] = 0"
  by simp

lemma count_all_Cons:
  "count_all (Comment i a t s b rs # cs) = 1 + count_all rs + count_all cs"
proof -
  have "count_all (Comment i a t s b rs # cs)
      = count_all_loop cs (int (length cs) + 1 + count_all rs)"
    by (simp add: add.commute)
  also have "\<dots> = int (length cs) + 1 + count_all rs + count_all_loop cs 0"
    by (rule count_all_loop_shift)
  also have "count_all_loop cs 0 = count_all cs - int (length cs)"
    using count_all_loop_shift [of cs "int (length cs)"] by simp
  finally show ?thesis by simp
qed

declare count_all.simps [simp del]
declare count_comments_recursive.simps [simp del]

lemma count_comments_total:
  "fst (count_comments_recursive cs d so) = count_all cs"
  "fst (count_comments_loop cs d st tot) = tot + count_all cs"
proof (induction cs d so and cs d st tot rule: count_comments_recursive_count_comments_loop.induct)
  case (1 comments depth stats)
  then show ?case by (simp add: count_comments_recursive.simps)
next
  case (2 depth st tot)
  show ?case by (simp add: count_all_Nil)
next
  case (3 i a t s b rs cs depth st tot)
  show ?case
  proof (cases "rs = []")
    case True
    with 3(3) [OF refl refl] show ?thesis
      by (simp add: count_all_Cons count_all_Nil)
  next
    case False
    obtain sub st3 where r: "count_comments_recursive rs (depth + 1) (Some (visit depth st)) = (sub, st3)"
      by (cases "count_comments_recursive rs (depth + 1) (Some (visit depth st))")
    have "sub = count_all rs"
      using 3(1) [OF refl refl False] by (simp add: r)
    moreover have "fst (count_comments_loop cs depth st3 (tot + 1 + sub)) = tot + 1 + sub + count_all cs"
      using 3(2) [OF refl refl False r [symmetric]] .
    ultimately show ?thesis
      using False r by (simp add: count_all_Cons)
  qed
qed

text \<open>
  Leaving \<^verbatim>\<open>stats\<close> out and passing fresh statistics, as the endpoint does, are the same
  call.
\<close>

lemma count_comments_fresh:
  "count_comments_recursive cs d None = count_comments_recursive cs d (Some fresh_stats)"
  by (simp add: count_comments_recursive.simps)

text \<open>
  C1. For every forest, the total that the server's depth-statistics traversal returns,
  started at depth 0 with fresh statistics (left out, or passed as the endpoint passes
  them), is the total that the scraper's \<^verbatim>\<open>count_all\<close> returns on the same forest.
\<close>

theorem C1_total_eq_count_all:
  "fst (count_comments_recursive F 0 None) = count_all F
   \<and> fst (count_comments_recursive F 0 (Some fresh_stats)) = count_all F"
  by (simp add: count_comments_total(1))

section \<open>\<^verbatim>\<open>count_all\<close> leaves its argument as it was\<close>

lemma alloc_frame:
  "alloc ob s = (a, s1) \<Longrightarrow> prefix (store s) (store s1) \<and> printed s1 = printed s"
  by (auto simp: alloc_def)

lemma count_all_h_frame:
  "count_all_h n v s = Some (r, s') \<Longrightarrow> prefix (store s) (store s') \<and> printed s' = printed s"
  "count_all_loop_h n a i tot s = Some (r, s') \<Longrightarrow> prefix (store s) (store s') \<and> printed s' = printed s"
proof (induction n v s and n a i tot s arbitrary: r s' and r s' rule: count_all_h_count_all_loop_h.induct)
  case (1 comments s)
  then show ?case by simp
next
  case (2 n comments s)
  then show ?case
    by (auto split: pyval.splits option.splits pyobj.splits scalar.splits if_splits)
next
  case (3 a i tot s)
  then show ?case by simp
next
  case (4 n a i tot s)
  from "4.prems" obtain items where
    items: "obj_at (store s) a = Some (ListObj items)"
    by (auto split: option.splits pyobj.splits)
  show ?case
  proof (cases "i < length items")
    case False
    with "4.prems" items show ?thesis by simp
  next
    case True
    show ?thesis
    proof (cases "items ! i")
      case (Imm v)
      with "4.prems" items True show ?thesis by simp
    next
      case (Ref d)
      show ?thesis
      proof (cases "obj_at (store s) d")
        case None
        with "4.prems" items True Ref show ?thesis by simp
      next
        case (Some ob)
        show ?thesis
        proof (cases ob)
          case (ListObj xs)
          with "4.prems" items True Ref Some show ?thesis by simp
        next
          case (DictObj kvs)
          obtain dflt s1 where al: "alloc (ListObj []) s = (dflt, s1)"
            by (cases "alloc (ListObj []) s")
          note ctx = items True Ref Some DictObj al
          from "4.prems" ctx obtain r2 s2 where
            call: "count_all_h n (dict_get kvs ''replies'' (Ref dflt)) s1 = Some (r2, s2)"
            by (auto split: option.splits)
          have f1: "prefix (store s) (store s1) \<and> printed s1 = printed s"
            using al by (rule alloc_frame)
          have f2: "prefix (store s1) (store s2) \<and> printed s2 = printed s1"
            using "4.IH"(1) [OF items refl True Ref Some DictObj al [symmetric] call] .
          show ?thesis
          proof (cases r2)
            case (Inl e)
            with "4.prems" ctx call have "s' = s2" by simp
            with f1 f2 show ?thesis by (auto intro: prefix_order.trans)
          next
            case (Inr sub)
            with "4.prems" ctx call have
              loop: "count_all_loop_h n a (i + 1) (tot + sub) s2 = Some (r, s')" by simp
            have "prefix (store s2) (store s') \<and> printed s' = printed s2"
              using "4.IH"(2) [OF items refl True Ref Some DictObj al [symmetric] call refl Inr loop] .
            with f1 f2 show ?thesis by (auto intro: prefix_order.trans)
          qed
        qed
      qed
    qed
  qed
qed

lemma obj_at_prefix:
  "prefix st st' \<Longrightarrow> obj_at st a = Some ob \<Longrightarrow> obj_at st' a = Some ob"
  by (auto simp: prefix_def obj_at_def nth_append split: if_splits)

lemma json_at_prefix:
  "json_at st v j \<Longrightarrow> prefix st st' \<Longrightarrow> json_at st' v j"
proof (induction st v j rule: json_at.induct)
  case (6 st v js)
  from "6.prems"(1) obtain a vs where v: "v = Ref a" and ob: "obj_at st a = Some (ListObj vs)"
    and all: "list_all2 (json_at st) vs js"
    by (auto split: pyval.splits option.splits pyobj.splits)
  have "list_all2 (json_at st') vs js"
    using all
  proof (rule list.rel_mono_strong)
    fix x y assume "x \<in> set vs" "y \<in> set js" "json_at st x y"
    then show "json_at st' x y"
      using "6.IH" [OF v ob refl] "6.prems"(2) by blast
  qed
  with v obj_at_prefix [OF "6.prems"(2) ob] show ?case by simp
next
  case (7 st v kvs)
  from "7.prems"(1) obtain a ds where v: "v = Ref a" and ob: "obj_at st a = Some (DictObj ds)"
    and keys: "map fst ds = map fst kvs"
    and all: "list_all2 (json_at st) (map snd ds) (map snd kvs)"
    by (auto split: pyval.splits option.splits pyobj.splits)
  have "list_all2 (json_at st') (map snd ds) (map snd kvs)"
    using all
  proof (rule list.rel_mono_strong)
    fix x y assume "x \<in> set (map snd ds)" "y \<in> set (map snd kvs)" "json_at st x y"
    then show "json_at st' x y"
      using "7.IH" [OF v ob refl] "7.prems"(2) by blast
  qed
  with v keys obj_at_prefix [OF "7.prems"(2) ob] show ?case by simp
qed simp_all

lemma dict_entry_at:
  assumes "map fst ds = map fst kvs" and "list_all2 R (map snd ds) (map snd kvs)"
    and "map_of kvs k = Some j"
  shows "\<exists>v. map_of ds k = Some v \<and> R v j"
  using assms
proof (induction ds arbitrary: kvs)
  case Nil
  then show ?case by simp
next
  case (Cons d ds)
  then obtain p kvs' where kvs: "kvs = p # kvs'" by (cases kvs) auto
  obtain k1 v1 where d: "d = (k1, v1)" by (cases d)
  obtain k2 j2 where p: "p = (k2, j2)" by (cases p)
  from Cons.prems kvs d p have k12: "k1 = k2" and r: "R v1 j2"
    and keys: "map fst ds = map fst kvs'" and rest: "list_all2 R (map snd ds) (map snd kvs')"
    by simp_all
  show ?case
  proof (cases "k2 = k")
    case True
    with Cons.prems(3) kvs p have "j = j2" by simp
    with True k12 r d show ?thesis by simp
  next
    case False
    with Cons.prems(3) kvs p have "map_of kvs' k = Some j" by simp
    from Cons.IH [OF keys rest this] False k12 d show ?thesis by simp
  qed
qed

lemma json_at_list:
  "json_at st v (JList js) \<longleftrightarrow>
     (\<exists>a vs. v = Ref a \<and> obj_at st a = Some (ListObj vs) \<and> list_all2 (json_at st) vs js)"
  by (auto split: pyval.splits option.splits pyobj.splits)

lemma json_at_comment:
  assumes "json_at st v (comment_json (Comment i a t s b rs))"
  shows "\<exists>d kvs vr. v = Ref d \<and> obj_at st d = Some (DictObj kvs)
           \<and> map_of kvs ''replies'' = Some vr
           \<and> json_at st vr (JList (map comment_json rs))"
proof -
  let ?fields = "[(''id'', i), (''author'', a), (''timestamp'', t), (''score'', s), (''text'', b),
           (''replies'', JList (map comment_json rs))]"
  from assms obtain d kvs where v: "v = Ref d" and ob: "obj_at st d = Some (DictObj kvs)"
    and keys: "map fst kvs = map fst ?fields"
    and vals: "list_all2 (json_at st) (map snd kvs) (map snd ?fields)"
    by (auto split: pyval.splits option.splits pyobj.splits)
  have "map_of ?fields ''replies'' = Some (JList (map comment_json rs))" by simp
  from dict_entry_at [OF keys vals this] v ob show ?thesis by blast
qed

lemma count_all_h_returns:
  fixes tot0 :: int
  shows "\<forall>n v s. json_at (store s) v (JList (map comment_json comments)) \<and> fuel_for comments \<le> n
      \<longrightarrow> (\<exists>s'. count_all_h n v s = Some (Inr (count_all comments), s'))"
    and "\<forall>n a i tot s items F.
      obj_at (store s) a = Some (ListObj items)
      \<and> list_all2 (json_at (store s)) items (map comment_json F)
      \<and> drop i F = cs \<and> i \<le> length F \<and> loop_fuel cs \<le> n
      \<longrightarrow> (\<exists>s'. count_all_loop_h n a i tot s = Some (Inr (count_all_loop cs tot), s'))"
proof (induction comments and cs tot0 rule: count_all_count_all_loop.induct)
  case (1 comments)
  show ?case
  proof (intro allI impI, elim conjE)
    fix n v and s :: pystate
    assume rep: "json_at (store s) v (JList (map comment_json comments))"
      and fuel: "fuel_for comments \<le> n"
    from rep obtain a items where v: "v = Ref a"
      and ob: "obj_at (store s) a = Some (ListObj items)"
      and items: "list_all2 (json_at (store s)) items (map comment_json comments)"
      unfolding json_at_list by blast
    from fuel obtain m where n: "n = Suc m" and m: "loop_fuel comments \<le> m"
      by (cases n) simp_all
    from items have len: "length items = length comments"
      by (simp add: list_all2_lengthD)
    from 1 ob items m obtain s' where
      "count_all_loop_h m a 0 (int (length comments)) s
         = Some (Inr (count_all_loop comments (int (length comments))), s')"
      by (metis drop0 le0)
    with v ob n len show "\<exists>s'. count_all_h n v s = Some (Inr (count_all comments), s')"
      by (simp add: count_all.simps)
  qed
next
  case (2 tot0)
  show ?case
  proof (intro allI impI, elim conjE)
    fix n a i tot items and s :: pystate and F :: "comment list"
    assume ob: "obj_at (store s) a = Some (ListObj items)"
      and items: "list_all2 (json_at (store s)) items (map comment_json F)"
      and dr: "drop i F = []" and i: "i \<le> length F" and fuel: "loop_fuel [] \<le> n"
    from items have len: "length items = length F"
      by (simp add: list_all2_lengthD)
    from fuel obtain m where n: "n = Suc m" by (cases n) simp_all
    from dr i len have "\<not> i < length items" by simp
    with ob n show "\<exists>s'. count_all_loop_h n a i tot s = Some (Inr (count_all_loop [] tot), s')"
      by simp
  qed
next
  case (3 ci ca ct csc cb rs cs tot0)
  let ?c = "Comment ci ca ct csc cb rs"
  show ?case
  proof (intro allI impI, elim conjE)
    fix n a i tot items and s :: pystate and F :: "comment list"
    assume ob: "obj_at (store s) a = Some (ListObj items)"
      and items: "list_all2 (json_at (store s)) items (map comment_json F)"
      and dr: "drop i F = ?c # cs" and i: "i \<le> length F"
      and fuel: "loop_fuel (?c # cs) \<le> n"
    from items have len: "length items = length F"
      by (simp add: list_all2_lengthD)
    from dr have iF: "i < length F"
      by (cases "i < length F") simp_all
    from dr iF have Fi: "F ! i = ?c" and dr': "drop (i + 1) F = cs"
      by (simp_all add: Cons_nth_drop_Suc [symmetric])
    from fuel obtain m where n: "n = Suc m" and m1: "fuel_for rs \<le> m" and m2: "loop_fuel cs \<le> m"
      by (cases n) simp_all
    from items iF len have "json_at (store s) (items ! i) (comment_json ?c)"
      using list_all2_nthD [OF items, of i] Fi by simp
    from json_at_comment [OF this] obtain d kvs vr where
      it: "items ! i = Ref d" and dob: "obj_at (store s) d = Some (DictObj kvs)"
      and vr: "map_of kvs ''replies'' = Some vr"
      and rep: "json_at (store s) vr (JList (map comment_json rs))"
      by blast
    obtain dflt s1 where al: "alloc (ListObj []) s = (dflt, s1)"
      by (cases "alloc (ListObj []) s")
    have p1: "prefix (store s) (store s1)"
      using alloc_frame [OF al] by simp
    have get: "dict_get kvs ''replies'' (Ref dflt) = vr"
      by (simp add: dict_get_def vr)
    from json_at_prefix [OF rep p1] m1 "3.IH"(1) obtain s2 where
      call: "count_all_h m vr s1 = Some (Inr (count_all rs), s2)"
      by blast
    have p2: "prefix (store s) (store s2)"
      using p1 count_all_h_frame(1) [OF call] by (auto intro: prefix_order.trans)
    have ob2: "obj_at (store s2) a = Some (ListObj items)"
      using obj_at_prefix [OF p2 ob] .
    have items2: "list_all2 (json_at (store s2)) items (map comment_json F)"
      using items by (rule list_all2_mono) (rule json_at_prefix [OF _ p2])
    from "3.IH"(2) ob2 items2 dr' iF m2 obtain s' where
      "count_all_loop_h m a (i + 1) (tot + count_all rs) s2
         = Some (Inr (count_all_loop cs (tot + count_all rs)), s')"
      by (metis Suc_eq_plus1 Suc_leI)
    with ob iF len it dob al get call n
    show "\<exists>s'. count_all_loop_h n a i tot s = Some (Inr (count_all_loop (?c # cs) tot), s')"
      by simp
  qed
qed

text \<open>
  C9. \<^verbatim>\<open>count_all\<close> returns its total without changing its input and without any other
  effect. For every state, argument and fuel: when the call ends, by a return or by an
  exception, every object of the store is at its address as it was (the store has only
  grown, by the default lists \<^verbatim>\<open>[]\<close> that the call created), and nothing has been
  printed. For every forest \<open>F\<close>, every state whose store holds \<open>F\<close> as the argument, and
  enough fuel: the call returns, it raises no exception, the value is the total of
  \<^verbatim>\<open>count_all\<close>, and the argument still holds \<open>F\<close>, every field of every node and every
  child sequence.
\<close>

theorem C9_count_all_frame:
  "(count_all_h fuel v s = Some (r, s') \<longrightarrow>
      prefix (store s) (store s') \<and> printed s' = printed s)
   \<and> (json_at (store s) v (JList (map comment_json F)) \<and> fuel_for F \<le> fuel \<longrightarrow>
      (\<exists>s''. count_all_h fuel v s = Some (Inr (count_all F), s'')
          \<and> prefix (store s) (store s'') \<and> printed s'' = printed s
          \<and> json_at (store s'') v (JList (map comment_json F))))"
proof -
  have "\<exists>s''. count_all_h fuel v s = Some (Inr (count_all F), s'')
          \<and> prefix (store s) (store s'') \<and> printed s'' = printed s
          \<and> json_at (store s'') v (JList (map comment_json F))"
    if rep: "json_at (store s) v (JList (map comment_json F))" and fuel: "fuel_for F \<le> fuel"
  proof -
    from count_all_h_returns(1) [of F] rep fuel obtain s'' where
      ret: "count_all_h fuel v s = Some (Inr (count_all F), s'')"
      by blast
    from count_all_h_frame(1) [OF ret] have
      fr: "prefix (store s) (store s'')" "printed s'' = printed s"
      by simp_all
    from json_at_prefix [OF rep fr(1)] ret fr show ?thesis by blast
  qed
  with count_all_h_frame(1) [of fuel v s r s'] show ?thesis by blast
qed

text \<open>The example forest in the example store: three nodes, three default lists created.\<close>

theorem C9_count_all_frame_witness:
  "json_at ex_store (Ref 0) (JList (map comment_json ex_forest))
   \<and> fuel_for ex_forest \<le> 6
   \<and> count_all_h 6 (Ref 0) \<lparr>store = ex_store, printed = []\<rparr>
       = Some (Inr 3, \<lparr>store = ex_store @ [ListObj [], ListObj [], ListObj []], printed = []\<rparr>)
   \<and> count_all ex_forest = 3"
proof -
  have rep: "json_at ex_store (Ref 0) (JList (map comment_json ex_forest))"
    by (simp add: ex_store_def ex_forest_def leaf_def obj_at_def)
  have fuel: "fuel_for ex_forest \<le> 6"
    by (simp add: ex_forest_def leaf_def)
  have run: "count_all_h 6 (Ref 0) \<lparr>store = ex_store, printed = []\<rparr>
       = Some (Inr 3, \<lparr>store = ex_store @ [ListObj [], ListObj [], ListObj []], printed = []\<rparr>)"
    by (simp add: eval_nat_numeral ex_store_def obj_at_def alloc_def dict_get_def)
  show ?thesis
    using C9_count_all_frame [of 6 "Ref 0" "\<lparr>store = ex_store, printed = []\<rparr>" _ _ ex_forest]
      rep fuel run
    by simp
qed

section \<open>Depth statistics\<close>

lemma sum_dict_set:
  "sum_list (map snd (dict_set d k (dict_get d k 0 + (1::int)))) = sum_list (map snd d) + 1"
  by (induction d) (auto simp: dict_get_def)

lemma keys_dict_set:
  "map fst (dict_set d k v) = (if k \<in> fst ` set d then map fst d else map fst d @ [k])"
proof (induction d)
  case Nil
  show ?case by simp
next
  case (Cons p d)
  obtain k' v' where p: "p = (k', v')" by (cases p)
  show ?case using Cons by (cases "k' = k") (simp_all add: p)
qed

lemma set_keys_dict_set: "fst ` set (dict_set d k v) = insert k (fst ` set d)"
  using arg_cong [OF keys_dict_set [of d k v], of set] by (auto split: if_splits)

lemma distinct_dict_set: "distinct (map fst d) \<Longrightarrow> distinct (map fst (dict_set d k v))"
  by (simp add: keys_dict_set)

lemma visit_sum: "sum_list (map snd (by_depth (visit d st))) = sum_list (map snd (by_depth st)) + 1"
  by (simp add: visit_def sum_dict_set)

lemma visit_keys: "fst ` set (by_depth (visit d st)) = insert d (fst ` set (by_depth st))"
  by (simp add: visit_def set_keys_dict_set)

lemma visit_max: "max_depth (visit d st) = max (max_depth st) d"
  by (simp add: visit_def)

lemma visit_distinct:
  "distinct (map fst (by_depth st)) \<Longrightarrow> distinct (map fst (by_depth (visit d st)))"
  by (simp add: visit_def distinct_dict_set)

lemma stats_inv_visit: "stats_inv st \<Longrightarrow> stats_inv (visit d st)"
  unfolding stats_inv_def visit_keys visit_max using visit_distinct [of st d] by auto

lemma count_comments_stats:
  "(case so of None \<Rightarrow> fresh_stats | Some st \<Rightarrow> st) = st0 \<Longrightarrow>
     sum_list (map snd (by_depth (snd (count_comments_recursive cs d so))))
       = sum_list (map snd (by_depth st0)) + fst (count_comments_recursive cs d so)
     \<and> (stats_inv st0 \<longrightarrow> stats_inv (snd (count_comments_recursive cs d so)))"
  "sum_list (map snd (by_depth (snd (count_comments_loop cs d st tot)))) + tot
       = sum_list (map snd (by_depth st)) + fst (count_comments_loop cs d st tot)
    \<and> (stats_inv st \<longrightarrow> stats_inv (snd (count_comments_loop cs d st tot)))"
proof (induction cs d so and cs d st tot arbitrary: st0 rule: count_comments_recursive_count_comments_loop.induct)
  case (1 comments depth stats)
  then show ?case by (simp add: count_comments_recursive.simps)
next
  case (2 depth st tot)
  show ?case by simp
next
  case (3 i a t s b rs cs depth st tot)
  show ?case
  proof (cases "rs = []")
    case True
    with 3(3) [OF refl refl] show ?thesis
      by (simp add: visit_sum stats_inv_visit)
  next
    case False
    obtain sub st3 where r: "count_comments_recursive rs (depth + 1) (Some (visit depth st)) = (sub, st3)"
      by (cases "count_comments_recursive rs (depth + 1) (Some (visit depth st))")
    have a: "sum_list (map snd (by_depth st3)) = sum_list (map snd (by_depth st)) + 1 + sub"
      and b: "stats_inv st \<longrightarrow> stats_inv st3"
      using 3(1) [OF refl refl False, of "visit depth st"] by (simp_all add: r visit_sum stats_inv_visit)
    from 3(2) [OF refl refl False r [symmetric]] a b show ?thesis
      using False r by simp
  qed
qed

text \<open>
  C10. For every forest, in the statistics that \<^verbatim>\<open>count_comments_recursive\<close> produces
  from fresh statistics at depth 0, the per-depth counts of \<^verbatim>\<open>by_depth\<close> add up to the
  returned total, and every depth that is a key of \<^verbatim>\<open>by_depth\<close> is at most
  \<^verbatim>\<open>max_depth\<close>. Each key occurs once in \<^verbatim>\<open>by_depth\<close>, so the sum over the list is the
  sum over the dictionary.
\<close>

theorem C10_stats_consistent:
  "sum_list (map snd (by_depth (snd (count_comments_recursive F 0 None))))
     = fst (count_comments_recursive F 0 None)
   \<and> (\<forall>k \<in> fst ` set (by_depth (snd (count_comments_recursive F 0 None))).
         k \<le> max_depth (snd (count_comments_recursive F 0 None)))
   \<and> distinct (map fst (by_depth (snd (count_comments_recursive F 0 None))))"
proof -
  have kb: "stats_inv fresh_stats"
    by (simp add: stats_inv_def fresh_stats_def)
  have "sum_list (map snd (by_depth fresh_stats)) = 0"
    by (simp add: fresh_stats_def)
  with count_comments_stats(1) [of None fresh_stats F 0] kb show ?thesis
    by (simp add: stats_inv_def)
qed

lemma ex_forest_stats:
  "count_comments_recursive ex_forest 0 None = (3, \<lparr>max_depth = 1, by_depth = [(0, 2), (1, 1)]\<rparr>)"
  by (simp add: ex_forest_def leaf_def count_comments_recursive.simps visit_def dict_get_def fresh_stats_def)

theorem C10_stats_consistent_witness:
  "(1::int) \<in> fst ` set (by_depth (snd (count_comments_recursive ex_forest 0 None)))
   \<and> (1::int) \<le> max_depth (snd (count_comments_recursive ex_forest 0 None))
   \<and> sum_list (map snd (by_depth (snd (count_comments_recursive ex_forest 0 None)))) = 3"
  using C10_stats_consistent [of ex_forest] by (simp add: ex_forest_stats)

lemma count_leaves:
  "\<forall>c \<in> set cs. c_replies c = [] \<Longrightarrow>
     snd (count_comments_loop cs d st tot) = (visit d ^^ length cs) st"
proof (induction cs arbitrary: st tot)
  case Nil
  show ?case by simp
next
  case (Cons c cs)
  obtain i a t s b rs where c: "c = Comment i a t s b rs" by (cases c)
  from Cons.prems have rs: "rs = []" and rest: "\<forall>c \<in> set cs. c_replies c = []"
    by (simp_all add: c)
  show ?case
    using Cons.IH [OF rest, of "visit d st" "tot + 1"] by (simp add: c rs funpow_swap1)
qed

lemma visit_pow_fresh:
  "(visit 0 ^^ Suc n) fresh_stats = \<lparr>max_depth = 0, by_depth = [(0, int n + 1)]\<rparr>"
  by (induction n) (simp_all add: visit_def fresh_stats_def dict_get_def)

text \<open>
  C7, as stated, at the empty forest: no comment is visited, so \<^verbatim>\<open>by_depth\<close> stays the
  empty dictionary; it has no entry for depth 0, and so is not \<^verbatim>\<open>{0: 0}\<close>.
\<close>

theorem C7_counterexample:
  "\<not> (max_depth (snd (count_comments_recursive [] 0 None)) = 0
      \<and> map_of (by_depth (snd (count_comments_recursive [] 0 None)))
          = map_of [(0, int (length ([] :: comment list)))])"
  by (simp add: count_comments_recursive.simps fresh_stats_def fun_eq_iff)

text \<open>
  C7, amended. For every forest in which no node has children, \<^verbatim>\<open>max_depth\<close> is 0; when
  the forest is not empty \<^verbatim>\<open>by_depth\<close> is \<^verbatim>\<open>{0: len(F)}\<close>, and for the empty forest
  it is the empty dictionary.
\<close>

theorem C7_depth0_stats:
  assumes "\<forall>c \<in> set F. c_replies c = []"
  shows "max_depth (snd (count_comments_recursive F 0 None)) = 0
       \<and> by_depth (snd (count_comments_recursive F 0 None))
           = (if F = [] then [] else [(0, int (length F))])"
proof (cases F)
  case Nil
  then show ?thesis by (simp add: count_comments_recursive.simps fresh_stats_def)
next
  case (Cons c cs)
  have "snd (count_comments_recursive F 0 None) = (visit 0 ^^ Suc (length cs)) fresh_stats"
    using count_leaves [OF assms, of 0 fresh_stats 0] by (simp add: count_comments_recursive.simps Cons)
  then show ?thesis by (simp only: visit_pow_fresh) (simp add: Cons)
qed

theorem C7_depth0_stats_witness:
  "c_replies (leaf ''a'') = [] \<and> c_replies (leaf ''b'') = []
   \<and> max_depth (snd (count_comments_recursive [leaf ''a'', leaf ''b''] 0 None)) = 0
   \<and> by_depth (snd (count_comments_recursive [leaf ''a'', leaf ''b''] 0 None)) = [(0, 2)]"
proof -
  have h: "\<forall>c \<in> set [leaf ''a'', leaf ''b'']. c_replies c = []"
    by (simp add: leaf_def)
  show ?thesis using C7_depth0_stats [OF h] by (simp add: leaf_def)
qed

section \<open>Tree builder: properties\<close>

lemma non_null_simps [simp]:
  "non_null [] = []"
  "non_null (None # rs) = non_null rs"
  "non_null (Some n # rs) = n # non_null rs"
  by (simp_all add: non_null_def)

lemma non_null_append [simp]: "non_null (rs @ rs') = non_null rs @ non_null rs'"
  by (simp add: non_null_def)

lemma parse_comment_t1:
  assumes "map_of ob ''kind'' = Some (JStr ''t1'')" and "map_of ob ''data'' = Some (JObj cd)"
  shows "parse_comment fmt (JObj ob) =
     (case reply_children_of cd of
        Inl e \<Rightarrow> Inl e
      | Inr None \<Rightarrow> Inr (Some (new_comment fmt cd))
      | Inr (Some (JList xs)) \<Rightarrow>
          (case parse_replies fmt xs [] of
             Inl e \<Rightarrow> Inl e
           | Inr rs \<Rightarrow> Inr (Some (set_replies rs (new_comment fmt cd))))
      | Inr (Some (JObj kvs)) \<Rightarrow> if kvs = [] then Inr (Some (new_comment fmt cd)) else Inl TypeError
      | Inr (Some (JStr s)) \<Rightarrow> if s = [] then Inr (Some (new_comment fmt cd)) else Inl TypeError
      | Inr (Some _) \<Rightarrow> Inl TypeError)"
proof -
  have "c_replies (new_comment fmt cd) = []"
    by (simp add: new_comment_def set_author_def Let_def)
  then show ?thesis
    using assms by (simp add: parse_comment.simps Let_def split: sum.splits option.splits json.splits)
qed

lemma parse_replies_strings:
  "parse_replies fmt (map JStr ks) acc = (if ks = [] then Inr acc else Inl TypeError)"
  by (cases ks) (simp_all add: parse_comment.simps)

lemma new_comment_replies: "c_replies (new_comment fmt cd) = []"
  by (simp add: new_comment_def set_author_def Let_def)

lemma set_replies_sel [simp]:
  "c_replies (set_replies rs c) = rs"
  "c_id (set_replies rs c) = c_id c"
  "c_author (set_replies rs c) = c_author c"
  "c_timestamp (set_replies rs c) = c_timestamp c"
  "c_score (set_replies rs c) = c_score c"
  "c_text (set_replies rs c) = c_text c"
  by (simp_all add: set_replies_def)

lemma set_replies_same: "c_replies c = rs \<Longrightarrow> set_replies rs c = c"
  by (cases c) (simp add: set_replies_def)

lemma parse_comment_built:
  assumes "map_of ob ''kind'' = Some (JStr ''t1'')" and "map_of ob ''data'' = Some (JObj cd)"
    and "parse_comment fmt (JObj ob) = Inr r"
  shows "\<exists>rs. r = Some (set_replies rs (new_comment fmt cd))"
  using assms(3) new_comment_replies [of fmt cd]
  unfolding parse_comment_t1 [OF assms(1,2)]
  by (auto split: sum.splits option.splits json.splits if_splits dest: set_replies_same [symmetric])

lemma parse_replies_iff:
  "parse_replies fmt xs acc = Inr ys \<longleftrightarrow>
     (\<exists>rs. map (parse_comment fmt) xs = map Inr rs \<and> ys = acc @ non_null rs)"
proof (induction xs arbitrary: acc)
  case Nil
  show ?case by auto
next
  case (Cons x xs)
  show ?case
  proof (cases "parse_comment fmt x")
    case (Inl e)
    then show ?thesis by (auto simp: map_eq_Cons_conv)
  next
    case (Inr r)
    then show ?thesis
      by (cases r) (auto simp: Cons.IH map_eq_Cons_conv Cons_eq_map_conv)
  qed
qed

lemma comments_loop_iff:
  "comments_loop fmt xs acc = Inr ys \<longleftrightarrow>
     (\<exists>rs. map (parse_comment fmt) xs = map Inr rs \<and> ys = acc @ non_null rs)"
proof (induction xs arbitrary: acc)
  case Nil
  show ?case by auto
next
  case (Cons x xs)
  show ?case
  proof (cases "parse_comment fmt x")
    case (Inl e)
    then show ?thesis by (auto simp: map_eq_Cons_conv)
  next
    case (Inr r)
    then show ?thesis
      by (cases r) (auto simp: Cons.IH map_eq_Cons_conv Cons_eq_map_conv)
  qed
qed

lemma reply_children_of_none:
  assumes "map_of cd ''replies'' = Some r" and "\<not> is_dict r \<or> r = JObj []"
  shows "reply_children_of cd = Inr None"
  using assms by (cases r) (simp_all add: reply_children_of_def)

lemma reply_children_of_list:
  assumes "map_of cd ''replies'' = Some (JObj rd)" and "rd \<noteq> []"
    and "map_of rd ''data'' = Some (JObj dd)" and "map_of dd ''children'' = Some c"
  shows "reply_children_of cd = Inr (Some c)"
  using assms by (simp add: reply_children_of_def dict_get_def)

lemma new_comment_fields:
  "c_id (new_comment fmt cd) = dict_get cd ''id'' (JStr '''')"
  "c_timestamp (new_comment fmt cd) = dict_get cd ''created_utc'' (JInt 0)"
  "c_score (new_comment fmt cd) = dict_get cd ''score'' (JInt 0)"
  "c_text (new_comment fmt cd) = dict_get cd ''body'' (JStr '''')"
  "c_author (new_comment fmt cd) =
     (if truthy (dict_get cd ''author_flair_text'' JNull)
      then JStr (py_str fmt (dict_get cd ''author'' (JStr ''[deleted]'')) @ '' ('' @
                 py_str fmt (dict_get cd ''author_flair_text'' JNull) @ '')'')
      else dict_get cd ''author'' (JStr ''[deleted]''))"
  by (simp_all add: new_comment_def set_author_def Let_def)

lemmas eval_parse = parse_comment.simps new_comment_def reply_children_of_def dict_get_def
  set_author_def set_replies_def py_str_def Let_def

text \<open>
  C3. For every raw entry whose kind tag is not \<^verbatim>\<open>t1\<close>, \<^verbatim>\<open>parse_comment\<close> produces no
  node: it returns \<^verbatim>\<open>None\<close>, not an error, whatever the rest of the entry is (the payload
  is not looked at, and need not even be present).
\<close>

theorem C3_non_comment_kind:
  assumes "map_of ob ''kind'' = Some k" and "k \<noteq> JStr ''t1''"
  shows "parse_comment fmt (JObj ob) = Inr None"
  using assms by (simp add: parse_comment.simps)

text \<open>A ``load more'' entry whose payload is \<^verbatim>\<open>null\<close>.\<close>

theorem C3_non_comment_kind_witness:
  "map_of [(''kind'', JStr ''more''), (''data'', JNull)] ''kind'' = Some (JStr ''more'')
   \<and> JStr ''more'' \<noteq> JStr ''t1''
   \<and> parse_comment str_other (JObj [(''kind'', JStr ''more''), (''data'', JNull)]) = Inr None"
  using C3_non_comment_kind [of "[(''kind'', JStr ''more''), (''data'', JNull)]" "JStr ''more''" str_other]
  by simp

text \<open>
  C2. For every comment entry whose payload has a \<^verbatim>\<open>replies\<close> field that is not a
  dictionary, or is the empty dictionary, \<^verbatim>\<open>parse_comment\<close> returns a node with an empty
  child sequence and raises no error.
\<close>

theorem C2_sentinel_replies:
  assumes "map_of ob ''kind'' = Some (JStr ''t1'')" and "map_of ob ''data'' = Some (JObj cd)"
    and "map_of cd ''replies'' = Some r" and "\<not> is_dict r \<or> r = JObj []"
  shows "\<exists>n. parse_comment fmt (JObj ob) = Inr (Some n) \<and> c_replies n = []"
  by (simp add: parse_comment_t1 [OF assms(1,2)] reply_children_of_none [OF assms(3,4)]
        new_comment_replies)

text \<open>A comment whose \<^verbatim>\<open>replies\<close> is the empty string.\<close>

theorem C2_sentinel_replies_witness:
  "map_of [(''kind'', JStr ''t1''), (''data'', JObj [(''id'', JStr ''x''), (''replies'', JStr '''')])] ''kind''
     = Some (JStr ''t1'')
   \<and> map_of [(''id'', JStr ''x''), (''replies'', JStr '''')] ''replies'' = Some (JStr '''')
   \<and> \<not> is_dict (JStr '''')
   \<and> parse_comment str_other
        (JObj [(''kind'', JStr ''t1''), (''data'', JObj [(''id'', JStr ''x''), (''replies'', JStr '''')])])
      = Inr (Some (Comment (JStr ''x'') (JStr ''[deleted]'') (JInt 0) (JInt 0) (JStr '''') []))"
  using C2_sentinel_replies [of "[(''kind'', JStr ''t1''), (''data'', JObj [(''id'', JStr ''x''), (''replies'', JStr '''')])]"
      "[(''id'', JStr ''x''), (''replies'', JStr '''')]" "JStr ''''" str_other]
  by (simp add: eval_parse)

text \<open>
  C4. For every comment entry that is built: when the payload has a non-empty flair text
  \<open>f\<close>, the node's author is \<^verbatim>\<open>"<author> (<f>)"\<close>, where \<^verbatim>\<open><author>\<close> is the payload's
  author and is \<^verbatim>\<open>[deleted]\<close> when the payload has none; when the flair is absent or
  empty, the author is what the lookup with its default gave, unmodified.
\<close>

theorem C4_flair_annotation:
  assumes "map_of ob ''kind'' = Some (JStr ''t1'')" and "map_of ob ''data'' = Some (JObj cd)"
    and "parse_comment fmt (JObj ob) = Inr r"
  shows "\<exists>n. r = Some n
     \<and> (\<forall>f. map_of cd ''author_flair_text'' = Some (JStr f) \<and> f \<noteq> [] \<longrightarrow>
            (\<forall>a. map_of cd ''author'' = Some (JStr a) \<longrightarrow> c_author n = JStr (a @ '' ('' @ f @ '')''))
          \<and> (map_of cd ''author'' = None \<longrightarrow> c_author n = JStr (''[deleted] ('' @ f @ '')'')))
     \<and> (map_of cd ''author_flair_text'' = None \<or> map_of cd ''author_flair_text'' = Some (JStr [])
            \<longrightarrow> c_author n = dict_get cd ''author'' (JStr ''[deleted]''))"
proof -
  from parse_comment_built [OF assms] obtain rs where
    r: "r = Some (set_replies rs (new_comment fmt cd))" ..
  show ?thesis
    unfolding r by (auto simp: new_comment_fields dict_get_def py_str_def)
qed

text \<open>A comment without an author and with the flair \<^verbatim>\<open>Mod\<close>.\<close>

theorem C4_flair_annotation_witness:
  "map_of [(''kind'', JStr ''t1''), (''data'', JObj [(''author_flair_text'', JStr ''Mod'')])] ''kind''
     = Some (JStr ''t1'')
   \<and> map_of [(''author_flair_text'', JStr ''Mod'')] ''author_flair_text'' = Some (JStr ''Mod'')
   \<and> map_of [(''author_flair_text'', JStr ''Mod'')] ''author'' = None
   \<and> parse_comment str_other
         (JObj [(''kind'', JStr ''t1''), (''data'', JObj [(''author_flair_text'', JStr ''Mod'')])])
       = Inr (Some (Comment (JStr '''') (JStr ''[deleted] (Mod)'') (JInt 0) (JInt 0) (JStr '''') []))"
  using C4_flair_annotation [of "[(''kind'', JStr ''t1''), (''data'', JObj [(''author_flair_text'', JStr ''Mod'')])]"
      "[(''author_flair_text'', JStr ''Mod'')]" str_other
      "Some (Comment (JStr '''') (JStr ''[deleted] (Mod)'') (JInt 0) (JInt 0) (JStr '''') [])"]
  by (simp add: eval_parse)

text \<open>
  C5. A field absent from the payload gets its default. For the post (which is always
  built from a dictionary payload): title, author and subreddit \<^verbatim>\<open>Unknown\<close>, timestamp,
  score and comment count 0, self-text empty. For a comment that is built: identifier
  and body text empty, timestamp and score 0, and author \<^verbatim>\<open>[deleted]\<close>, to which the
  flair annotation of C4 is applied when the payload has a flair.
\<close>

theorem C5_absent_fields_default:
  "(\<exists>p. post_data u (JObj d) = Inr p
       \<and> (map_of d ''title'' = None \<longrightarrow> title p = JStr ''Unknown'')
       \<and> (map_of d ''author'' = None \<longrightarrow> author p = JStr ''Unknown'')
       \<and> (map_of d ''subreddit'' = None \<longrightarrow> subreddit p = JStr ''Unknown'')
       \<and> (map_of d ''created_utc'' = None \<longrightarrow> timestamp p = JInt 0)
       \<and> (map_of d ''score'' = None \<longrightarrow> score p = JInt 0)
       \<and> (map_of d ''num_comments'' = None \<longrightarrow> num_comments p = JInt 0)
       \<and> (map_of d ''selftext'' = None \<longrightarrow> selftext p = JStr ''''))
   \<and> (map_of ob ''kind'' = Some (JStr ''t1'') \<longrightarrow> map_of ob ''data'' = Some (JObj cd) \<longrightarrow>
       (\<forall>r. parse_comment fmt (JObj ob) = Inr r \<longrightarrow>
          (\<exists>n. r = Some n
             \<and> (map_of cd ''id'' = None \<longrightarrow> c_id n = JStr '''')
             \<and> (map_of cd ''author'' = None \<longrightarrow>
                  c_author n =
                    (if truthy (dict_get cd ''author_flair_text'' JNull)
                     then JStr (''[deleted] ('' @ py_str fmt (dict_get cd ''author_flair_text'' JNull) @ '')'')
                     else JStr ''[deleted]''))
             \<and> (map_of cd ''created_utc'' = None \<longrightarrow> c_timestamp n = JInt 0)
             \<and> (map_of cd ''score'' = None \<longrightarrow> c_score n = JInt 0)
             \<and> (map_of cd ''body'' = None \<longrightarrow> c_text n = JStr ''''))))"
proof -
  have "\<exists>n. r = Some n
      \<and> (map_of cd ''id'' = None \<longrightarrow> c_id n = JStr '''')
      \<and> (map_of cd ''author'' = None \<longrightarrow>
           c_author n =
             (if truthy (dict_get cd ''author_flair_text'' JNull)
              then JStr (''[deleted] ('' @ py_str fmt (dict_get cd ''author_flair_text'' JNull) @ '')'')
              else JStr ''[deleted]''))
      \<and> (map_of cd ''created_utc'' = None \<longrightarrow> c_timestamp n = JInt 0)
      \<and> (map_of cd ''score'' = None \<longrightarrow> c_score n = JInt 0)
      \<and> (map_of cd ''body'' = None \<longrightarrow> c_text n = JStr '''')"
    if "map_of ob ''kind'' = Some (JStr ''t1'')" "map_of ob ''data'' = Some (JObj cd)"
      "parse_comment fmt (JObj ob) = Inr r" for r
  proof -
    from parse_comment_built [OF that] obtain rs where
      r: "r = Some (set_replies rs (new_comment fmt cd))" ..
    show ?thesis
      unfolding r by (simp add: new_comment_fields) (simp add: dict_get_def py_str_def)
  qed
  moreover have "\<exists>p. post_data u (JObj d) = Inr p
       \<and> (map_of d ''title'' = None \<longrightarrow> title p = JStr ''Unknown'')
       \<and> (map_of d ''author'' = None \<longrightarrow> author p = JStr ''Unknown'')
       \<and> (map_of d ''subreddit'' = None \<longrightarrow> subreddit p = JStr ''Unknown'')
       \<and> (map_of d ''created_utc'' = None \<longrightarrow> timestamp p = JInt 0)
       \<and> (map_of d ''score'' = None \<longrightarrow> score p = JInt 0)
       \<and> (map_of d ''num_comments'' = None \<longrightarrow> num_comments p = JInt 0)
       \<and> (map_of d ''selftext'' = None \<longrightarrow> selftext p = JStr '''')"
    by (simp add: post_data_def dict_get_def)
  ultimately show ?thesis by blast
qed

text \<open>A post payload with a title only and a comment payload with an identifier only.\<close>

theorem C5_absent_fields_default_witness:
  "post_data ''https://old.reddit.com/r/x/comments/1/'' (JObj [(''title'', JStr ''T'')])
     = Inr \<lparr>title = JStr ''T'', author = JStr ''Unknown'', subreddit = JStr ''Unknown'',
            timestamp = JInt 0, score = JInt 0, url = ''https://old.reddit.com/r/x/comments/1/'',
            num_comments = JInt 0, selftext = JStr ''''\<rparr>
   \<and> parse_comment str_other (JObj [(''kind'', JStr ''t1''), (''data'', JObj [(''id'', JStr ''x'')])])
     = Inr (Some (Comment (JStr ''x'') (JStr ''[deleted]'') (JInt 0) (JInt 0) (JStr '''') []))"
  using C5_absent_fields_default [of "''https://old.reddit.com/r/x/comments/1/''" "[(''title'', JStr ''T'')]"
      "[(''kind'', JStr ''t1''), (''data'', JObj [(''id'', JStr ''x'')])]" "[(''id'', JStr ''x'')]" str_other]
  by (simp add: eval_parse post_data_def)

text \<open>
  C6. The top-level loop returns a forest exactly when \<^verbatim>\<open>parse_comment\<close> returns a
  result for every entry, and the forest is then the non-null results in the entries'
  order. In the same way, for a comment entry whose replies container is a non-empty
  dictionary with the child entries \<open>xs\<close>, \<^verbatim>\<open>parse_comment\<close> returns a result exactly when
  it does for every child entry, and the node's child sequence is then the non-null
  results in the child entries' order. The entry is arbitrary, so this holds at every
  depth of nesting.
\<close>

theorem C6_forest_order:
  "(comments_list fmt entries = Inr ns \<longleftrightarrow>
      (\<exists>rs. map (parse_comment fmt) entries = map Inr rs \<and> ns = non_null rs))
   \<and> (map_of ob ''kind'' = Some (JStr ''t1'') \<longrightarrow> map_of ob ''data'' = Some (JObj cd) \<longrightarrow>
      map_of cd ''replies'' = Some (JObj rd) \<longrightarrow> rd \<noteq> [] \<longrightarrow>
      map_of rd ''data'' = Some (JObj dd) \<longrightarrow> map_of dd ''children'' = Some (JList xs) \<longrightarrow>
      (parse_comment fmt (JObj ob) = Inr r \<longleftrightarrow>
         (\<exists>rs n. map (parse_comment fmt) xs = map Inr rs \<and> r = Some n
             \<and> n = set_replies (non_null rs) (new_comment fmt cd)
             \<and> c_replies n = non_null rs)))"
proof -
  have "comments_list fmt entries = Inr ns \<longleftrightarrow>
      (\<exists>rs. map (parse_comment fmt) entries = map Inr rs \<and> ns = non_null rs)"
    by (simp add: comments_list_def comments_loop_iff)
  moreover have "parse_comment fmt (JObj ob) = Inr r \<longleftrightarrow>
         (\<exists>rs n. map (parse_comment fmt) xs = map Inr rs \<and> r = Some n
             \<and> n = set_replies (non_null rs) (new_comment fmt cd)
             \<and> c_replies n = non_null rs)"
    if "map_of ob ''kind'' = Some (JStr ''t1'')" "map_of ob ''data'' = Some (JObj cd)"
      "map_of cd ''replies'' = Some (JObj rd)" "rd \<noteq> []"
      "map_of rd ''data'' = Some (JObj dd)" "map_of dd ''children'' = Some (JList xs)"
  proof -
    have pc: "parse_comment fmt (JObj ob) =
       (case parse_replies fmt xs [] of
          Inl e \<Rightarrow> Inl e
        | Inr ys \<Rightarrow> Inr (Some (set_replies ys (new_comment fmt cd))))"
      by (simp add: parse_comment_t1 [OF that(1,2)] reply_children_of_list [OF that(3-6)])
    show ?thesis (is "?L \<longleftrightarrow> ?R")
    proof
      assume ?L
      with pc obtain ys where ys: "parse_replies fmt xs [] = Inr ys"
        and r: "r = Some (set_replies ys (new_comment fmt cd))"
        by (cases "parse_replies fmt xs []") simp_all
      from ys obtain rs where "map (parse_comment fmt) xs = map Inr rs" "ys = non_null rs"
        unfolding parse_replies_iff by auto
      with r show ?R by simp
    next
      assume ?R
      then obtain rs where rs: "map (parse_comment fmt) xs = map Inr rs"
        and r: "r = Some (set_replies (non_null rs) (new_comment fmt cd))"
        by blast
      have "parse_replies fmt xs [] = Inr (non_null rs)"
        unfolding parse_replies_iff using rs by auto
      with pc r show ?L by simp
    qed
  qed
  ultimately show ?thesis by blast
qed

text \<open>The example listing: one comment with one reply, and two entries that yield no node.\<close>

theorem C6_forest_order_witness:
  "map (parse_comment str_other) [top_entry, more_entry]
     = map Inr [Some (Comment (JStr ''a'') (JStr ''bob'') (JInt 0) (JInt 5) (JStr ''hi'')
                  [Comment (JStr ''b'') (JStr ''[deleted] (Mod)'') (JInt 0) (JInt 1) (JStr ''yo'') []]),
                None]
   \<and> comments_list str_other [top_entry, more_entry]
     = Inr [Comment (JStr ''a'') (JStr ''bob'') (JInt 0) (JInt 5) (JStr ''hi'')
             [Comment (JStr ''b'') (JStr ''[deleted] (Mod)'') (JInt 0) (JInt 1) (JStr ''yo'') []]]"
  using C6_forest_order [of str_other "[top_entry, more_entry]"]
  by (simp add: eval_parse comments_list_def top_entry_def reply_entry_def more_entry_def)

section \<open>Request validation: properties\<close>

lemma word_run_then_iff:
  "word_run_then w lit s \<longleftrightarrow>
     (\<exists>community rest. s = community @ lit @ rest \<and> community \<noteq> [] \<and> (\<forall>c \<in> set community. w c))"
proof (induction s)
  case Nil
  show ?case by simp
next
  case (Cons c cs)
  show ?case (is "?L \<longleftrightarrow> ?R")
  proof
    assume ?L
    then have wc: "w c" and alt: "prefix lit cs \<or> word_run_then w lit cs" by simp_all
    from alt show ?R
    proof
      assume "prefix lit cs"
      then obtain rest where "cs = lit @ rest" by (auto simp: prefix_def)
      with wc have "c # cs = [c] @ lit @ rest \<and> [c] \<noteq> [] \<and> (\<forall>x \<in> set [c]. w x)" by simp
      then show ?R by blast
    next
      assume "word_run_then w lit cs"
      with Cons.IH obtain community rest where
        "cs = community @ lit @ rest" "community \<noteq> []" "\<forall>x \<in> set community. w x" by blast
      with wc have "c # cs = (c # community) @ lit @ rest \<and> c # community \<noteq> []
          \<and> (\<forall>x \<in> set (c # community). w x)" by simp
      then show ?R by blast
    qed
  next
    assume ?R
    then obtain community rest where
      eq: "c # cs = community @ lit @ rest" and ne: "community \<noteq> []"
      and all: "\<forall>x \<in> set community. w x" by blast
    from ne obtain d ds where comm: "community = d # ds" by (cases community) auto
    with eq have c: "d = c" and cs: "cs = ds @ lit @ rest" by simp_all
    show ?L
    proof (cases ds)
      case Nil
      with cs c comm all show ?thesis by (simp add: prefix_def)
    next
      case (Cons e es)
      with cs comm all have "word_run_then w lit cs"
        unfolding Cons.IH by (intro exI [of _ ds] exI [of _ rest]) simp
      with c comm all show ?thesis by simp
    qed
  qed
qed

lemma prefix_then_iff:
  "prefix xs s \<and> P (drop (length xs) s) \<longleftrightarrow> (\<exists>t. s = xs @ t \<and> P t)"
  by (auto simp: prefix_def)

lemma host_path_match_iff:
  "host_path_match w s \<longleftrightarrow>
     (\<exists>community rest. s = ''://old.reddit.com/r/'' @ community @ ''/comments/'' @ rest
        \<and> community \<noteq> [] \<and> (\<forall>c \<in> set community. w c))"
proof -
  have "host_path_match w s \<longleftrightarrow>
      (\<exists>t. s = ''://old.reddit.com/r/'' @ t \<and> word_run_then w ''/comments/'' t)"
    unfolding host_path_match_def by (rule prefix_then_iff)
  also have "\<dots> \<longleftrightarrow> (\<exists>community rest. s = ''://old.reddit.com/r/'' @ community @ ''/comments/'' @ rest
        \<and> community \<noteq> [] \<and> (\<forall>c \<in> set community. w c))"
    unfolding word_run_then_iff by blast
  finally show ?thesis .
qed

lemma optional_then_iff:
  "(\<exists>s. v = h @ s \<and> ((\<exists>t. s = x @ t \<and> P t) \<or> P s)) \<longleftrightarrow>
   (\<exists>scheme t. v = scheme @ t \<and> (scheme = h \<or> scheme = h @ x) \<and> P t)"
  by (metis append_assoc)

lemma pattern_split:
  "(\<exists>scheme t. v = scheme @ t \<and> (scheme = h \<or> scheme = hs)
       \<and> (\<exists>community rest. t = host @ community @ lit @ rest \<and> C community))
   \<longleftrightarrow> (\<exists>scheme community rest. v = scheme @ host @ community @ lit @ rest
       \<and> (scheme = h \<or> scheme = hs) \<and> C community)"
  by blast

lemma re_match_reddit_iff: "re_match_reddit w v \<longleftrightarrow> matches_pattern w v"
proof -
  let ?Q = "\<lambda>s. (prefix ''s'' s \<and> host_path_match w (drop (length ''s'') s)) \<or> host_path_match w s"
  have https: "''http'' @ ''s'' = ''https''" by simp
  have "re_match_reddit w v \<longleftrightarrow> prefix ''http'' v \<and> ?Q (drop (length ''http'') v)"
    by (simp add: re_match_reddit_def Let_def)
  also have "\<dots> \<longleftrightarrow> (\<exists>s. v = ''http'' @ s \<and> ?Q s)"
    by (rule prefix_then_iff)
  also have "\<dots> \<longleftrightarrow>
      (\<exists>s. v = ''http'' @ s \<and> ((\<exists>t. s = ''s'' @ t \<and> host_path_match w t) \<or> host_path_match w s))"
    unfolding prefix_then_iff [of "''s''" _ "host_path_match w"] ..
  also have "\<dots> \<longleftrightarrow> (\<exists>scheme t. v = scheme @ t \<and> (scheme = ''http'' \<or> scheme = ''http'' @ ''s'')
      \<and> host_path_match w t)"
    by (rule optional_then_iff)
  also have "\<dots> \<longleftrightarrow> (\<exists>scheme community rest.
        v = scheme @ ''://old.reddit.com/r/'' @ community @ ''/comments/'' @ rest
        \<and> (scheme = ''http'' \<or> scheme = ''http'' @ ''s'')
        \<and> (community \<noteq> [] \<and> (\<forall>c \<in> set community. w c)))"
    unfolding host_path_match_iff by (rule pattern_split)
  also have "\<dots> \<longleftrightarrow> matches_pattern w v"
    unfolding matches_pattern_def https ..
  finally show ?thesis .
qed

lemma example_url_normal: "normalize_url ''http://example.com/not-reddit'' = ''http://example.com/not-reddit''"
  by (simp add: normalize_url_def)

lemma example_url_no_match: "\<not> re_match_reddit w ''http://example.com/not-reddit''"
  by (simp add: re_match_reddit_def host_path_match_def)

text \<open>
  C8. For every request whose URL, after the conversion to old.reddit.com, does not match
  the pattern, validation raises \<^verbatim>\<open>ValueError\<close> and the request is answered with a
  validation error without the scraper being started. In particular the URL
  \<^verbatim>\<open>http://example.com/not-reddit\<close> is rejected so.
\<close>

theorem C8_invalid_url_rejected:
  "(\<not> matches_pattern w (normalize_url v) \<longrightarrow>
      validate_reddit_url w v = Inl ValueError
      \<and> post_scrape w run_scraper v = (ValidationError, []))
   \<and> validate_reddit_url w ''http://example.com/not-reddit'' = Inl ValueError
   \<and> post_scrape w run_scraper ''http://example.com/not-reddit'' = (ValidationError, [])"
proof -
  have "validate_reddit_url w u = Inl ValueError \<and> post_scrape w run_scraper u = (ValidationError, [])"
    if "\<not> matches_pattern w (normalize_url u)" for u
    using that by (simp add: validate_reddit_url_def post_scrape_def re_match_reddit_iff)
  moreover have "\<not> matches_pattern w (normalize_url ''http://example.com/not-reddit'')"
    unfolding example_url_normal re_match_reddit_iff [symmetric] by (rule example_url_no_match)
  ultimately show ?thesis by blast
qed

text \<open>A Reddit URL that is no comment thread.\<close>

theorem C8_invalid_url_rejected_witness:
  "normalize_url ''https://www.reddit.com/user/bob'' = ''https://old.reddit.com/user/bob''
   \<and> \<not> matches_pattern word_ascii (normalize_url ''https://www.reddit.com/user/bob'')
   \<and> validate_reddit_url word_ascii ''https://www.reddit.com/user/bob'' = Inl ValueError
   \<and> post_scrape word_ascii (\<lambda>u. None) ''https://www.reddit.com/user/bob'' = (ValidationError, [])"
proof -
  have n: "normalize_url ''https://www.reddit.com/user/bob'' = ''https://old.reddit.com/user/bob''"
    by (simp add: normalize_url_def)
  have h: "\<not> matches_pattern word_ascii (normalize_url ''https://www.reddit.com/user/bob'')"
    unfolding n re_match_reddit_iff [symmetric]
    by (simp add: re_match_reddit_def host_path_match_def)
  show ?thesis
    using C8_invalid_url_rejected [of word_ascii "''https://www.reddit.com/user/bob''" "\<lambda>u. None"] h n
    by simp
qed

end
